theory Spec2Isabelle
  imports Main "HOL-Library.Word"
begin

section \<open>JavaScript strings\<close>

text \<open>
  A JavaScript string is a sequence of UTF-16 code units; \<open>text.length\<close> counts code
  units, and a regular expression without the \<open>u\<close> flag matches code unit by code unit.
  String literals of the source are ASCII and are written \<open>js ''...''\<close>.
\<close>

type_synonym cu = "16 word"
type_synonym jsstring = "cu list"

definition js :: "string \<Rightarrow> jsstring" where
  "js cs = map of_char cs"

definition cc :: "char \<Rightarrow> cu" where
  "cc c = of_char c"

section \<open>Regular expressions (the fragment used by \<open>PII_PATTERNS\<close>)\<close>

text \<open>
  Members of a character class \<open>[...]\<close>: a range \<open>a-z\<close>, a single character, and the
  class escapes \<open>\d\<close> and \<open>\s\<close>.
\<close>

datatype cls_item = CRange cu cu | CChar cu | CDigit | CSpace

text \<open>
  \<open>Rep min max greedy r\<close> is the quantified term \<open>r{min,max}\<close> (\<open>max = None\<close> for no
  upper bound, \<open>greedy = False\<close> for the lazy form with a trailing \<open>?\<close>); \<open>WordB\<close> is
  the assertion \<open>\b\<close>. Capturing and non-capturing groups delimit the same sub-term: no
  pattern has a back-reference and no replacement string refers to a capture.
\<close>

datatype regex =
    Chr cu
  | Cls "cls_item list"
  | WordB
  | Seq regex regex
  | Alt regex regex
  | Rep nat "nat option" bool regex

text \<open>ECMAScript \<open>\s\<close>: WhiteSpace and LineTerminator code points.\<close>

definition is_space :: "cu \<Rightarrow> bool" where
  "is_space c \<longleftrightarrow>
     c = 0x09 \<or> c = 0x0A \<or> c = 0x0B \<or> c = 0x0C \<or> c = 0x0D \<or> c = 0x20 \<or> c = 0xA0 \<or>
     c = 0x1680 \<or> (0x2000 \<le> c \<and> c \<le> 0x200A) \<or> c = 0x2028 \<or> c = 0x2029 \<or>
     c = 0x202F \<or> c = 0x205F \<or> c = 0x3000 \<or> c = 0xFEFF"

definition is_digit :: "cu \<Rightarrow> bool" where
  "is_digit c \<longleftrightarrow> 0x30 \<le> c \<and> c \<le> 0x39"

definition is_upper :: "cu \<Rightarrow> bool" where
  "is_upper c \<longleftrightarrow> 0x41 \<le> c \<and> c \<le> 0x5A"

definition is_lower :: "cu \<Rightarrow> bool" where
  "is_lower c \<longleftrightarrow> 0x61 \<le> c \<and> c \<le> 0x7A"

text \<open>\<open>\b\<close> tests membership in the word characters \<open>[A-Za-z0-9_]\<close>.\<close>

definition is_word :: "cu \<Rightarrow> bool" where
  "is_word c \<longleftrightarrow> is_lower c \<or> is_upper c \<or> is_digit c \<or> c = 0x5F"

text \<open>
  With the \<open>i\<close> flag (and no \<open>u\<close> flag) two code units match when their canonical
  forms agree. The canonical form is the upper-case mapping, except that a code unit of
  128 or more is never mapped below 128; the members of the one case-insensitive pattern
  are ASCII letters, digits and white space (which has no case mapping), so only the
  ASCII part of the mapping takes part in a comparison with them.
\<close>

definition to_upper :: "cu \<Rightarrow> cu" where
  "to_upper c = (if is_lower c then c - 0x20 else c)"

definition to_lower :: "cu \<Rightarrow> cu" where
  "to_lower c = (if is_upper c then c + 0x20 else c)"

fun item_has :: "cls_item \<Rightarrow> cu \<Rightarrow> bool" where
  "item_has (CRange lo hi) c = (lo \<le> c \<and> c \<le> hi)"
| "item_has (CChar a) c = (c = a)"
| "item_has CDigit c = is_digit c"
| "item_has CSpace c = is_space c"

definition in_class :: "bool \<Rightarrow> cls_item list \<Rightarrow> cu \<Rightarrow> bool" where
  "in_class ic items c \<longleftrightarrow>
     (\<exists>it \<in> set items. item_has it c \<or> (ic \<and> (item_has it (to_upper c) \<or> item_has it (to_lower c))))"

subsection \<open>The backtracking matcher\<close>

text \<open>
  A matcher state is the code unit just before the current position (\<open>None\<close> at the start
  of the input) and the input from the current position on. \<open>ends ic r st\<close> lists the
  states in which a match of \<open>r\<close> begun at \<open>st\<close> can end, in the order in which the
  backtracking matcher of ECMAScript tries them: the head of the list is the match that
  \<open>exec\<close> reports at this position, and the empty list is failure.

  A quantified term follows RepeatMatcher: no iteration once \<open>max\<close> is 0; an iteration that
  is not required (\<open>min = 0\<close>) and consumes nothing is rejected; a greedy term tries one more
  iteration before stopping, a lazy one stops first. The matcher only moves forward, so
  "consumes nothing" is written as "the rest did not get shorter".
\<close>

type_synonym mstate = "cu option \<times> jsstring"

fun is_word_opt :: "cu option \<Rightarrow> bool" where
  "is_word_opt None = False"
| "is_word_opt (Some c) = is_word c"

fun next_cu :: "jsstring \<Rightarrow> cu option" where
  "next_cu [] = None"
| "next_cu (c # s) = Some c"

fun rmin :: "regex \<Rightarrow> nat" where
  "rmin (Rep mn mx g r) = mn"
| "rmin _ = 0"

fun rsize :: "regex \<Rightarrow> nat" where
  "rsize (Seq a b) = Suc (rsize a + rsize b)"
| "rsize (Alt a b) = Suc (rsize a + rsize b)"
| "rsize (Rep mn mx g r) = Suc (rsize r)"
| "rsize _ = 0"

function ends :: "bool \<Rightarrow> regex \<Rightarrow> mstate \<Rightarrow> mstate list" where
  "ends ic (Chr a) (p, s) =
     (case s of [] \<Rightarrow> []
      | c # s' \<Rightarrow> if c = a \<or> (ic \<and> to_upper c = to_upper a) then [(Some c, s')] else [])"
| "ends ic (Cls items) (p, s) =
     (case s of [] \<Rightarrow> []
      | c # s' \<Rightarrow> if in_class ic items c then [(Some c, s')] else [])"
| "ends ic WordB (p, s) =
     (if is_word_opt p \<noteq> is_word_opt (next_cu s) then [(p, s)] else [])"
| "ends ic (Seq a b) st = concat (map (ends ic b) (ends ic a st))"
| "ends ic (Alt a b) st = ends ic a st @ ends ic b st"
| "ends ic (Rep mn mx g r) st =
     (if mx = Some 0 then [st]
      else
        let more = concat (map (\<lambda>y.
                     if mn = 0 \<and> \<not> length (snd y) < length (snd st) then []
                     else ends ic (Rep (mn - 1) (map_option (\<lambda>k. k - 1) mx) g r) y)
                   (ends ic r st))
        in if mn \<noteq> 0 then more else if g then more @ [st] else st # more)"
  by pat_completeness auto
termination
  by (relation "measures [\<lambda>(ic, r, st). rsize r, \<lambda>(ic, r, st). rmin r, \<lambda>(ic, r, st). length (snd st)]")
     auto

subsection \<open>\<open>String.prototype.replace\<close> with a global pattern\<close>

text \<open>
  The scan of \<open>text.replace(/r/g, tok)\<close>: \<open>exec\<close> is tried at the current position and,
  on failure, one code unit further on; text that is skipped is copied; a match is replaced
  by \<open>tok\<close> (no replacement string of the source contains \<open>$\<close>) and the scan resumes at its
  end, or one code unit later when the match was empty.
\<close>

fun replace_from :: "bool \<Rightarrow> regex \<Rightarrow> jsstring \<Rightarrow> cu option \<Rightarrow> jsstring \<Rightarrow> jsstring" where
  "replace_from ic r tok p s =
     (case ends ic r (p, s) of
        [] \<Rightarrow> (case s of [] \<Rightarrow> [] | c # s' \<Rightarrow> c # replace_from ic r tok (Some c) s')
      | (p', s') # _ \<Rightarrow>
          if length s' < length s then tok @ replace_from ic r tok p' s'
          else (case s of [] \<Rightarrow> tok | c # s'' \<Rightarrow> tok @ c # replace_from ic r tok (Some c) s''))"

definition replace_all :: "bool \<Rightarrow> regex \<Rightarrow> jsstring \<Rightarrow> jsstring \<Rightarrow> jsstring" where
  "replace_all ic r tok s = replace_from ic r tok None s"

subsection \<open>\<open>PII_PATTERNS\<close>\<close>

definition opt :: "regex \<Rightarrow> regex" where
  "opt r = Rep 0 (Some 1) True r"

definition many1 :: "regex \<Rightarrow> regex" where
  "many1 r = Rep 1 None True r"

definition exactly :: "nat \<Rightarrow> regex \<Rightarrow> regex" where
  "exactly n r = Rep n (Some n) True r"

fun seqs :: "regex list \<Rightarrow> regex" where
  "seqs [r] = r"
| "seqs (r # rs) = Seq r (seqs rs)"
| "seqs [] = Rep 0 (Some 0) True WordB"

fun alts :: "regex list \<Rightarrow> regex" where
  "alts [r] = r"
| "alts (r # rs) = Alt r (alts rs)"
| "alts [] = Cls []"

definition lit :: "string \<Rightarrow> regex" where
  "lit cs = seqs (map (\<lambda>c. Chr (cc c)) cs)"

definition digit :: regex where
  "digit = Cls [CDigit]"

definition sep :: regex where
  "sep = Cls [CChar (cc CHR ''-''), CChar (cc CHR ''.''), CChar (cc CHR '' '')]"

text \<open>\<^verbatim>\<open>/[a-zA-Z0-9._%+-]+@[a-zA-Z0-9.-]+\.[a-zA-Z]{2,}/g\<close>\<close>

definition EMAIL :: regex where
  "EMAIL = seqs
     [many1 (Cls [CRange (cc CHR ''a'') (cc CHR ''z''), CRange (cc CHR ''A'') (cc CHR ''Z''),
                 CRange (cc CHR ''0'') (cc CHR ''9''), CChar (cc CHR ''.''), CChar (cc CHR ''_''),
                 CChar (cc CHR ''%''), CChar (cc CHR ''+''), CChar (cc CHR ''-'')]),
      Chr (cc CHR ''@''),
      many1 (Cls [CRange (cc CHR ''a'') (cc CHR ''z''), CRange (cc CHR ''A'') (cc CHR ''Z''),
                 CRange (cc CHR ''0'') (cc CHR ''9''), CChar (cc CHR ''.''), CChar (cc CHR ''-'')]),
      Chr (cc CHR ''.''),
      Rep 2 None True (Cls [CRange (cc CHR ''a'') (cc CHR ''z''), CRange (cc CHR ''A'') (cc CHR ''Z'')])]"

text \<open>\<^verbatim>\<open>/(?:\+?1[-. ]?)?\(?([0-9]{3})\)?[-. ]?([0-9]{3})[-. ]?([0-9]{4})/g\<close>\<close>

definition PHONE :: regex where
  "PHONE = seqs
     [opt (seqs [opt (Chr (cc CHR ''+'')), Chr (cc CHR ''1''), opt sep]),
      opt (Chr (cc CHR ''('')),
      exactly 3 (Cls [CRange (cc CHR ''0'') (cc CHR ''9'')]),
      opt (Chr (cc CHR '')'')),
      opt sep,
      exactly 3 (Cls [CRange (cc CHR ''0'') (cc CHR ''9'')]),
      opt sep,
      exactly 4 (Cls [CRange (cc CHR ''0'') (cc CHR ''9'')])]"

text \<open>\<^verbatim>\<open>/\b\d{3}-\d{2}-\d{4}\b/g\<close>\<close>

definition SSN :: regex where
  "SSN = seqs [WordB, exactly 3 digit, Chr (cc CHR ''-''), exactly 2 digit, Chr (cc CHR ''-''),
               exactly 4 digit, WordB]"

text \<open>\<^verbatim>\<open>/\b(?:\d[ -]*?){13,16}\b/g\<close>\<close>

definition CREDIT_CARD :: regex where
  "CREDIT_CARD = seqs
     [WordB,
      Rep 13 (Some 16) True
        (Seq digit (Rep 0 None False (Cls [CChar (cc CHR '' ''), CChar (cc CHR ''-'')]))),
      WordB]"

text \<open>\<^verbatim>\<open>/\d+\s[A-Za-z0-9\s]+(?:Street|St|Avenue|Ave|Road|Rd|Boulevard|Blvd|Lane|Ln|Drive|Dr|Way)\.?/gi\<close>\<close>

definition ADDRESS :: regex where
  "ADDRESS = seqs
     [many1 digit,
      Cls [CSpace],
      many1 (Cls [CRange (cc CHR ''A'') (cc CHR ''Z''), CRange (cc CHR ''a'') (cc CHR ''z''),
                 CRange (cc CHR ''0'') (cc CHR ''9''), CSpace]),
      alts [lit ''Street'', lit ''St'', lit ''Avenue'', lit ''Ave'', lit ''Road'', lit ''Rd'',
            lit ''Boulevard'', lit ''Blvd'', lit ''Lane'', lit ''Ln'', lit ''Drive'', lit ''Dr'',
            lit ''Way''],
      opt (Chr (cc CHR ''.''))]"

definition MAX_INPUT_CHARS :: nat where
  "MAX_INPUT_CHARS = 100000"

definition redactPII :: "jsstring \<Rightarrow> jsstring" where
  "redactPII text =
     (if text = [] then []
      else
        let redacted = text;
            redacted = replace_all False EMAIL (js ''{REDACTED_EMAIL}'') redacted;
            redacted = replace_all False PHONE (js ''{REDACTED_PHONE}'') redacted;
            redacted = replace_all False SSN (js ''{REDACTED_SSN}'') redacted;
            redacted = replace_all False CREDIT_CARD (js ''{REDACTED_CC}'') redacted;
            redacted = replace_all True ADDRESS (js ''{REDACTED_ADDRESS}'') redacted
        in redacted)"

section \<open>The security layer\<close>

subsection \<open>Session state\<close>

record SessionState =
  id' :: "jsstring option"
  isActive :: bool
  startTime :: int

definition currentSession :: SessionState where
  "currentSession = \<lparr>id' = None, isActive = False, startTime = 0\<rparr>"

text \<open>
  What a call leaves behind besides its result: console output, and for the wrapper also
  the calls made to \<open>validateInput\<close>, \<open>redactPII\<close> and the task closure, each with its
  argument.
  A thrown value is an \<open>Error\<close> with its message or any other value of the caller's.
\<close>

datatype 'x thrown = Error jsstring | Thrown 'x

datatype console = ConsoleLog jsstring | ConsoleWarn jsstring

datatype 'x effect =
    Console console
  | ConsoleError jsstring "'x thrown"
  | Call_validateInput jsstring
  | Call_redactPII jsstring
  | Call_task jsstring

text \<open>
  A promise is fulfilled, rejected, or never settled. A task that throws before returning
  its promise is caught by the same \<open>try\<close> as one whose promise rejects. A task is
  given by the way its promise settles for each argument; the tasks of the repository call
  the language model and never the security layer, so a task leaves the session record
  alone.
\<close>

datatype ('x, 'a) promise = Resolved 'a | Rejected "'x thrown" | Pending

subsection \<open>Number and byte formatting\<close>

text \<open>The decimal digits of a length, as a template literal prints it.\<close>

function dec :: "nat \<Rightarrow> jsstring" where
  "dec n = (if n < 10 then [0x30 + of_nat n] else dec (n div 10) @ [0x30 + of_nat (n mod 10)])"
  by pat_completeness auto
termination
  by (relation "measure (\<lambda>n. n)") auto

text \<open>The digit of \<open>toString(16)\<close> for a value below 16.\<close>

definition hex_digit :: "nat \<Rightarrow> cu" where
  "hex_digit d = js ''0123456789abcdef'' ! d"

text \<open>\<open>byte.toString(16)\<close> for a byte of a \<open>Uint8Array\<close>.\<close>

definition toString16 :: "8 word \<Rightarrow> jsstring" where
  "toString16 byte =
     (if unat byte < 16 then [hex_digit (unat byte)]
      else [hex_digit (unat byte div 16), hex_digit (unat byte mod 16)])"

definition padStart :: "nat \<Rightarrow> cu \<Rightarrow> jsstring \<Rightarrow> jsstring" where
  "padStart n c s = replicate (n - length s) c @ s"

subsection \<open>Operations\<close>

text \<open>
  \<open>initSession\<close>: \<open>array\<close> gives the 16 bytes that \<open>crypto.getRandomValues\<close> wrote and
  \<open>now\<close> is \<open>Date.now()\<close>. Every operation returns its result, the session record it
  leaves and its effects.
\<close>

definition initSession ::
  "(nat \<Rightarrow> 8 word) \<Rightarrow> int \<Rightarrow> SessionState \<Rightarrow> jsstring \<times> SessionState \<times> console list" where
  "initSession array now st =
     (let sessionId = concat (map (\<lambda>i. padStart 2 (cc CHR ''0'') (toString16 (array i))) [0..<16])
      in (sessionId,
          \<lparr>id' = Some sessionId, isActive = True, startTime = now\<rparr>,
          [ConsoleLog (js ''[SECURE_LOG] Session '' @ take 6 sessionId @ js ''... initialized.'')]))"

definition getSessionId :: "SessionState \<Rightarrow> jsstring option" where
  "getSessionId st = id' st"

definition validateInput :: "jsstring \<Rightarrow> bool \<times> console list" where
  "validateInput text =
     (if length text > MAX_INPUT_CHARS
      then (False, [ConsoleWarn (js ''[SECURE_LOG] Input exceeds max length of ''
                                 @ dec MAX_INPUT_CHARS @ js ''.'')])
      else (True, []))"

text \<open>\<open>!currentSession.id\<close>: \<open>null\<close> and the empty string are falsy.\<close>

fun truthy :: "jsstring option \<Rightarrow> bool" where
  "truthy None = False"
| "truthy (Some s) = (s \<noteq> [])"

definition secureExecute ::
  "jsstring \<Rightarrow> jsstring \<Rightarrow> (jsstring \<Rightarrow> ('x, 'a) promise) \<Rightarrow> SessionState
   \<Rightarrow> ('x, 'a) promise \<times> SessionState \<times> 'x effect list" where
  "secureExecute input taskName task st =
     (if \<not> isActive st \<or> \<not> truthy (id' st)
      then (Rejected (Error (js ''Security Error: No active session.'')), st, [])
      else
        case validateInput input of (ok, fx) \<Rightarrow>
          if \<not> ok
          then (Rejected (Error (js ''Security Error: Input validation failed (too large or unsafe).'')),
                st, Call_validateInput input # map Console fx)
          else
            let safeInput = redactPII input;
                fx' = Call_validateInput input # map Console fx @
                      [Call_redactPII input,
                       Console (ConsoleLog (js ''[SECURE_LOG] Executing '' @ taskName
                                   @ js '' with redacted input length: '' @ dec (length safeInput))),
                       Call_task safeInput]
            in case task safeInput of
                 Resolved result \<Rightarrow> (Resolved result, st, fx')
               | Rejected error \<Rightarrow>
                   (Rejected error, st,
                    fx' @ [ConsoleError (js ''[SECURE_LOG] Error in '' @ taskName @ js '':'') error])
               | Pending \<Rightarrow> (Pending, st, fx'))"

definition clearSession :: "SessionState \<Rightarrow> SessionState \<times> console list" where
  "clearSession st =
     (let oldId = id' st
      in (\<lparr>id' = None, isActive = False, startTime = 0\<rparr>,
          [ConsoleLog (js ''[SECURE_LOG] Session ''
                       @ (case oldId of None \<Rightarrow> js ''undefined'' | Some i \<Rightarrow> take 6 i)
                       @ js ''... destroyed. Memory released.'')]))"

subsection \<open>Sequences of calls\<close>

text \<open>
  \<open>currentSession\<close> is private to the module: the record changes only through the four
  operations. \<open>run ops st\<close> is the record after the calls \<open>ops\<close>, oldest first.
\<close>

datatype ('x, 'a) call =
    InitSession "nat \<Rightarrow> 8 word" int
  | GetSessionId
  | SecureExecute jsstring jsstring "jsstring \<Rightarrow> ('x, 'a) promise"
  | ClearSession

fun step :: "('x, 'a) call \<Rightarrow> SessionState \<Rightarrow> SessionState" where
  "step (InitSession array now) st = fst (snd (initSession array now st))"
| "step GetSessionId st = st"
| "step (SecureExecute input taskName task) st = fst (snd (secureExecute input taskName task st))"
| "step ClearSession st = fst (clearSession st)"

fun run :: "('x, 'a) call list \<Rightarrow> SessionState \<Rightarrow> SessionState" where
  "run [] st = st"
| "run (c # cs) st = run cs (step c st)"

fun task_calls :: "'x effect list \<Rightarrow> jsstring list" where
  "task_calls [] = []"
| "task_calls (Call_task x # fx) = x # task_calls fx"
| "task_calls (_ # fx) = task_calls fx"

fun redact_calls :: "'x effect list \<Rightarrow> jsstring list" where
  "redact_calls [] = []"
| "redact_calls (Call_redactPII x # fx) = x # redact_calls fx"
| "redact_calls (_ # fx) = redact_calls fx"

section \<open>Notions used to state and prove the properties\<close>

text \<open>The code unit before the position reached after reading \<open>m\<close>.\<close>

fun last_opt :: "cu option \<Rightarrow> jsstring \<Rightarrow> cu option" where
  "last_opt p [] = p"
| "last_opt p (c # m) = last_opt (Some c) m"

text \<open>\<open>accepts ic r c\<close>: some character position of \<open>r\<close> can consume \<open>c\<close>.\<close>

fun accepts :: "bool \<Rightarrow> regex \<Rightarrow> cu \<Rightarrow> bool" where
  "accepts ic (Chr a) c = (c = a \<or> (ic \<and> to_upper c = to_upper a))"
| "accepts ic (Cls items) c = in_class ic items c"
| "accepts ic WordB c = False"
| "accepts ic (Seq a b) c = (accepts ic a c \<or> accepts ic b c)"
| "accepts ic (Alt a b) c = (accepts ic a c \<or> accepts ic b c)"
| "accepts ic (Rep mn mx g r) c = accepts ic r c"

text \<open>\<open>needs P ic r\<close>: the shape of \<open>r\<close> forces every match to contain a code unit in \<open>P\<close>.\<close>

fun needs :: "(cu \<Rightarrow> bool) \<Rightarrow> bool \<Rightarrow> regex \<Rightarrow> bool" where
  "needs P ic (Chr a) = (\<forall>c. accepts ic (Chr a) c \<longrightarrow> P c)"
| "needs P ic (Cls items) = (\<forall>c. in_class ic items c \<longrightarrow> P c)"
| "needs P ic WordB = False"
| "needs P ic (Seq a b) = (needs P ic a \<or> needs P ic b)"
| "needs P ic (Alt a b) = (needs P ic a \<and> needs P ic b)"
| "needs P ic (Rep mn mx g r) = (mn \<noteq> 0 \<and> mx \<noteq> Some 0 \<and> needs P ic r)"

text \<open>
  \<open>test_from ic r p s\<close>: the pattern finds a match somewhere in \<open>s\<close> (what
  \<open>RegExp.prototype.test\<close> answers on a fresh pattern), \<open>p\<close> being the code unit before \<open>s\<close>.
\<close>

fun test_from :: "bool \<Rightarrow> regex \<Rightarrow> cu option \<Rightarrow> jsstring \<Rightarrow> bool" where
  "test_from ic r p [] = (ends ic r (p, []) \<noteq> [])"
| "test_from ic r p (c # s) = (ends ic r (p, c # s) \<noteq> [] \<or> test_from ic r (Some c) s)"

text \<open>A text in which none of the five detection rules finds a match.\<close>

definition no_pii :: "jsstring \<Rightarrow> bool" where
  "no_pii s \<longleftrightarrow>
     \<not> test_from False EMAIL None s \<and> \<not> test_from False PHONE None s \<and>
     \<not> test_from False SSN None s \<and> \<not> test_from False CREDIT_CARD None s \<and>
     \<not> test_from True ADDRESS None s"

definition matched :: "bool \<Rightarrow> regex \<Rightarrow> mstate \<Rightarrow> mstate \<Rightarrow> jsstring \<Rightarrow> bool" where
  "matched ic r st e m \<longleftrightarrow>
     snd st = m @ snd e \<and> fst e = last_opt (fst st) m \<and> (\<forall>c \<in> set m. accepts ic r c)"

text \<open>The replacement tokens that \<open>redactPII\<close> writes.\<close>

definition placeholders :: "jsstring list" where
  "placeholders = [js ''{REDACTED_EMAIL}'', js ''{REDACTED_PHONE}'', js ''{REDACTED_SSN}'',
                   js ''{REDACTED_CC}'', js ''{REDACTED_ADDRESS}'']"

definition pii_char :: "cu \<Rightarrow> bool" where
  "pii_char c \<longleftrightarrow> is_digit c \<or> c = cc CHR ''@''"

text \<open>
  A token is fenced against a pattern when the pattern can consume neither its first nor
  its last code unit, every match of the pattern holds a digit or an \<open>@\<close>, and the token
  holds neither.
\<close>

definition fenced :: "bool \<Rightarrow> regex \<Rightarrow> jsstring \<Rightarrow> bool" where
  "fenced ic r tok \<longleftrightarrow>
     tok \<noteq> [] \<and> \<not> accepts ic r (hd tok) \<and> \<not> accepts ic r (last tok) \<and>
     (\<forall>c \<in> set tok. \<not> pii_char c) \<and> needs pii_char ic r"

text \<open>The five passes of \<open>redactPII\<close> on a text that follows the code unit \<open>c\<close>.\<close>

definition redact_after :: "cu \<Rightarrow> jsstring \<Rightarrow> jsstring" where
  "redact_after c b =
     replace_from True ADDRESS (js ''{REDACTED_ADDRESS}'') (Some c)
      (replace_from False CREDIT_CARD (js ''{REDACTED_CC}'') (Some c)
        (replace_from False SSN (js ''{REDACTED_SSN}'') (Some c)
          (replace_from False PHONE (js ''{REDACTED_PHONE}'') (Some c)
            (replace_from False EMAIL (js ''{REDACTED_EMAIL}'') (Some c) b))))"

subsection \<open>One redaction pass, as the specification words it\<close>

text \<open>
  "Every non-overlapping match of that category's rule in the current working copy of the
  text is replaced by that category's fixed placeholder token": scanning from the left,
  the text \<open>a\<close> before the leftmost match is kept, the match \<open>m\<close> becomes the token, and
  the rest \<open>b\<close> is treated the same way. \<open>no_start\<close> says that no match begins inside \<open>a\<close>;
  \<open>leftmost\<close> that \<open>m\<close> is what the pattern matches right after \<open>a\<close>.
\<close>

fun no_start :: "bool \<Rightarrow> regex \<Rightarrow> cu option \<Rightarrow> jsstring \<Rightarrow> jsstring \<Rightarrow> bool" where
  "no_start ic r p [] s = True"
| "no_start ic r p (c # a) s = (ends ic r (p, c # a @ s) = [] \<and> no_start ic r (Some c) a s)"

definition leftmost ::
  "bool \<Rightarrow> regex \<Rightarrow> cu option \<Rightarrow> jsstring \<Rightarrow> jsstring \<Rightarrow> jsstring \<Rightarrow> bool" where
  "leftmost ic r p a m b \<longleftrightarrow>
     m \<noteq> [] \<and> no_start ic r p a (m @ b) \<and>
     (case ends ic r (last_opt p a, m @ b) of
        [] \<Rightarrow> False
      | e # _ \<Rightarrow> e = (last_opt p (a @ m), b))"

inductive spec_redacts :: "bool \<Rightarrow> regex \<Rightarrow> jsstring \<Rightarrow> cu option \<Rightarrow> jsstring \<Rightarrow> jsstring \<Rightarrow> bool"
  for ic :: bool and r :: regex and tok :: jsstring where
  no_more: "\<not> test_from ic r p s \<Longrightarrow> spec_redacts ic r tok p s s"
| match: "leftmost ic r p a m b \<Longrightarrow> spec_redacts ic r tok (last_opt p (a @ m)) b out \<Longrightarrow>
          spec_redacts ic r tok p (a @ m @ b) (a @ tok @ out)"

subsection \<open>Session states\<close>

definition session_ok :: "SessionState \<Rightarrow> bool" where
  "session_ok st \<longleftrightarrow> (isActive st \<longleftrightarrow> id' st \<noteq> None) \<and> (isActive st \<longrightarrow> truthy (id' st))"

text \<open>A session as \<open>initSession\<close> leaves it, for the examples.\<close>

definition live_session :: SessionState where
  "live_session = run ([InitSession (\<lambda>i. 0) 0] :: (unit, unit) call list) currentSession"

definition echo :: "jsstring \<Rightarrow> (unit, jsstring) promise" where
  "echo safeInput = Resolved safeInput"

definition failing :: "jsstring \<Rightarrow> (unit, jsstring) promise" where
  "failing safeInput = Rejected (Error (js ''quota''))"

declare ends.simps [simp del]
declare replace_from.simps [simp del]
declare dec.simps [simp del]

section \<open>The matcher and the scan\<close>

lemma last_opt_append: "last_opt p (m @ n) = last_opt (last_opt p m) n"
  by (induction m arbitrary: p) auto

lemma last_opt_eq: "last_opt p m = (if m = [] then p else Some (last m))"
  by (induction m arbitrary: p) auto

lemma matched_refl: "matched ic r st st []"
  by (simp add: matched_def)

lemma matched_Seq:
  "matched ic a st y m1 \<Longrightarrow> matched ic b y e m2 \<Longrightarrow> matched ic (Seq a b) st e (m1 @ m2)"
  by (auto simp add: matched_def last_opt_append)

lemma matched_Rep:
  "matched ic r st y m1 \<Longrightarrow> matched ic (Rep mn' mx' g r) y e m2 \<Longrightarrow>
   matched ic (Rep mn mx g r) st e (m1 @ m2)"
  by (auto simp add: matched_def last_opt_append)

lemma matched_Alt1: "matched ic a st e m \<Longrightarrow> matched ic (Alt a b) st e m"
  by (auto simp add: matched_def)

lemma matched_Alt2: "matched ic b st e m \<Longrightarrow> matched ic (Alt a b) st e m"
  by (auto simp add: matched_def)

lemma ends_matched: "e \<in> set (ends ic r st) \<Longrightarrow> \<exists>m. matched ic r st e m"
proof (induction ic r st arbitrary: e rule: ends.induct)
  case (1 ic a p s)
  then show ?case
    by (cases s) (auto simp add: ends.simps matched_def split: if_splits)
next
  case (2 ic items p s)
  then show ?case
    by (cases s) (auto simp add: ends.simps matched_def split: if_splits)
next
  case (3 ic p s)
  then show ?case
    by (auto simp add: ends.simps matched_def split: if_splits)
next
  case (4 ic a b st)
  from "4.prems" obtain y where y: "y \<in> set (ends ic a st)" and e: "e \<in> set (ends ic b y)"
    by (auto simp add: ends.simps)
  from "4.IH"(1) [OF y] obtain m1 where "matched ic a st y m1" ..
  moreover from "4.IH"(2) [OF y e] obtain m2 where "matched ic b y e m2" ..
  ultimately show ?case by (blast intro: matched_Seq)
next
  case (5 ic a b st)
  from "5.prems" have "e \<in> set (ends ic a st) \<or> e \<in> set (ends ic b st)"
    by (simp add: ends.simps)
  then show ?case
  proof
    assume "e \<in> set (ends ic a st)"
    from "5.IH"(1) [OF this] show ?thesis by (blast intro: matched_Alt1)
  next
    assume "e \<in> set (ends ic b st)"
    from "5.IH"(2) [OF this] show ?thesis by (blast intro: matched_Alt2)
  qed
next
  case (6 ic mn mx g r st)
  show ?case
  proof (cases "mx = Some 0")
    case True
    with "6.prems" have "e = st" by (simp add: ends.simps)
    then show ?thesis by (auto intro: matched_refl)
  next
    case False
    let ?next = "Rep (mn - 1) (map_option (\<lambda>k. k - 1) mx) g r"
    from "6.prems" False consider (stop) "e = st"
      | (more) y where "y \<in> set (ends ic r st)"
          "\<not> (mn = 0 \<and> \<not> length (snd y) < length (snd st))"
          "e \<in> set (ends ic ?next y)"
      by (auto simp add: ends.simps(6) [of ic mn mx g r st] Let_def split: if_splits)
    then show ?thesis
    proof cases
      case stop
      then show ?thesis by (auto intro: matched_refl)
    next
      case more
      from "6.IH"(1) [OF False more(1)] obtain m1 where "matched ic r st y m1" ..
      moreover from "6.IH"(2) [OF False more] obtain m2 where "matched ic ?next y e m2" ..
      ultimately show ?thesis by (blast intro: matched_Rep)
    qed
  qed
qed

lemma ends_needs:
  "e \<in> set (ends ic r st) \<Longrightarrow> needs P ic r \<Longrightarrow> snd st = m @ snd e \<Longrightarrow> \<exists>c \<in> set m. P c"
proof (induction ic r st arbitrary: e m rule: ends.induct)
  case (1 ic a p s)
  from "1.prems"(1) obtain c where s: "s = c # snd e" and c: "accepts ic (Chr a) c"
    by (cases s) (auto simp add: ends.simps split: if_splits)
  from s "1.prems"(3) have "m = [c]" by simp
  moreover from c "1.prems"(2) have "P c" by (simp del: accepts.simps)
  ultimately show ?case by simp
next
  case (2 ic items p s)
  from "2.prems"(1) obtain c where s: "s = c # snd e" and c: "in_class ic items c"
    by (cases s) (auto simp add: ends.simps split: if_splits)
  from s "2.prems"(3) have "m = [c]" by simp
  moreover from c "2.prems"(2) have "P c" by simp
  ultimately show ?case by simp
next
  case (3 ic p s)
  then show ?case by simp
next
  case (4 ic a b st)
  from "4.prems"(1) obtain y where y: "y \<in> set (ends ic a st)" and e: "e \<in> set (ends ic b y)"
    by (auto simp add: ends.simps)
  from ends_matched [OF y] obtain m1 where m1: "matched ic a st y m1" ..
  from ends_matched [OF e] obtain m2 where m2: "matched ic b y e m2" ..
  from m1 have s1: "snd st = m1 @ snd y" by (simp add: matched_def)
  from m2 have s2: "snd y = m2 @ snd e" by (simp add: matched_def)
  from s1 s2 "4.prems"(3) have m: "m = m1 @ m2" by simp
  from "4.prems"(2) have "needs P ic a \<or> needs P ic b" by simp
  then show ?case
  proof
    assume "needs P ic a"
    from "4.IH"(1) [OF y this s1] show ?thesis by (auto simp add: m)
  next
    assume "needs P ic b"
    from "4.IH"(2) [OF y e this s2] show ?thesis by (auto simp add: m)
  qed
next
  case (5 ic a b st)
  from "5.prems"(2) have na: "needs P ic a" and nb: "needs P ic b" by simp_all
  from "5.prems"(1) have "e \<in> set (ends ic a st) \<or> e \<in> set (ends ic b st)"
    by (simp add: ends.simps)
  then show ?case
  proof
    assume "e \<in> set (ends ic a st)"
    from "5.IH"(1) [OF this na "5.prems"(3)] show ?thesis .
  next
    assume "e \<in> set (ends ic b st)"
    from "5.IH"(2) [OF this nb "5.prems"(3)] show ?thesis .
  qed
next
  case (6 ic mn mx g r st)
  from "6.prems"(2) have mn: "mn \<noteq> 0" and mx: "mx \<noteq> Some 0" and nd: "needs P ic r"
    by simp_all
  let ?next = "Rep (mn - 1) (map_option (\<lambda>k. k - 1) mx) g r"
  from "6.prems"(1) mn mx obtain y where y: "y \<in> set (ends ic r st)"
      and e: "e \<in> set (ends ic ?next y)"
    by (auto simp add: ends.simps(6) [of ic mn mx g r st] Let_def split: if_splits)
  from ends_matched [OF y] obtain m1 where m1: "matched ic r st y m1" ..
  from ends_matched [OF e] obtain m2 where m2: "matched ic ?next y e m2" ..
  from m1 have s1: "snd st = m1 @ snd y" by (simp add: matched_def)
  from m2 have s2: "snd y = m2 @ snd e" by (simp add: matched_def)
  from s1 s2 "6.prems"(3) have m: "m = m1 @ m2" by simp
  from "6.IH"(1) [OF mx y nd s1] show ?case by (auto simp add: m)
qed

lemma replace_no_match: "\<not> test_from ic r p s \<Longrightarrow> replace_from ic r tok p s = s"
proof (induction s arbitrary: p)
  case Nil
  then show ?case by (simp add: replace_from.simps [of ic r tok p "[]"])
next
  case (Cons c s)
  then show ?case by (simp add: replace_from.simps [of ic r tok p "c # s"])
qed

lemma ends_nonempty:
  assumes "ends ic r (p, s) = (p', s') # rest" and "needs P ic r"
  shows "length s' < length s \<and> (\<exists>m. m \<noteq> [] \<and> s = m @ s' \<and> p' = last_opt p m)"
proof -
  from assms(1) have e: "(p', s') \<in> set (ends ic r (p, s))" by simp
  from ends_matched [OF e] obtain m where m: "matched ic r (p, s) (p', s') m" ..
  then have s: "s = m @ s'" and p: "p' = last_opt p m" by (simp_all add: matched_def)
  from ends_needs [OF e assms(2), of m] s have "m \<noteq> []" by auto
  with s p show ?thesis by auto
qed

lemma redacts_skip:
  assumes "ends ic r (p, c # s) = []" and "spec_redacts ic r tok (Some c) s out"
  shows "spec_redacts ic r tok p (c # s) (c # out)"
  using assms(2)
proof (cases rule: spec_redacts.cases)
  case no_more
  with assms(1) have "\<not> test_from ic r p (c # s)" by simp
  then have "spec_redacts ic r tok p (c # s) (c # s)" by (rule spec_redacts.no_more)
  with no_more show ?thesis by simp
next
  case (match a m b out')
  from match(3) assms(1) match(1) have "leftmost ic r p (c # a) m b"
    by (simp add: leftmost_def cong: list.case_cong)
  moreover from match(4) have "spec_redacts ic r tok (last_opt p ((c # a) @ m)) b out'" by simp
  ultimately have "spec_redacts ic r tok p ((c # a) @ m @ b) ((c # a) @ tok @ out')"
    by (rule spec_redacts.match)
  with match show ?thesis by simp
qed

lemma replace_redacts:
  "needs P ic r \<Longrightarrow> spec_redacts ic r tok p s (replace_from ic r tok p s)"
proof (induction ic r tok p s rule: replace_from.induct)
  case (1 ic r tok p s)
  show ?case
  proof (cases "ends ic r (p, s)")
    case Nil
    show ?thesis
    proof (cases s)
      case Nil': Nil
      with Nil have "\<not> test_from ic r p s" by simp
      then have "spec_redacts ic r tok p s s" by (rule spec_redacts.no_more)
      moreover from Nil Nil' have "replace_from ic r tok p s = s"
        by (simp add: replace_from.simps [of ic r tok p "[]"])
      ultimately show ?thesis by simp
    next
      case (Cons c s')
      from "1.IH"(1) [OF Nil Cons "1.prems"]
      have "spec_redacts ic r tok (Some c) s' (replace_from ic r tok (Some c) s')" .
      with Nil Cons have "spec_redacts ic r tok p (c # s') (c # replace_from ic r tok (Some c) s')"
        by (auto intro: redacts_skip)
      moreover from Nil Cons have "replace_from ic r tok p s = c # replace_from ic r tok (Some c) s'"
        by (simp add: replace_from.simps [of ic r tok p "c # s'"])
      ultimately show ?thesis by (simp add: Cons)
    qed
  next
    case (Cons e rest)
    obtain p' s' where e: "e = (p', s')" by (cases e)
    from ends_nonempty [OF Cons [unfolded e] "1.prems"]
    obtain m where lt: "length s' < length s" and m: "m \<noteq> []" "s = m @ s'" "p' = last_opt p m"
      by auto
    from "1.IH"(2) [OF Cons e [symmetric] lt "1.prems"]
    have "spec_redacts ic r tok p' s' (replace_from ic r tok p' s')" .
    then have "spec_redacts ic r tok (last_opt p ([] @ m)) s' (replace_from ic r tok p' s')"
      by (simp add: m)
    moreover from Cons e m have "leftmost ic r p [] m s'"
      by (simp add: leftmost_def)
    ultimately have "spec_redacts ic r tok p ([] @ m @ s') ([] @ tok @ replace_from ic r tok p' s')"
      by (rule spec_redacts.match [rotated])
    moreover from Cons e lt have "replace_from ic r tok p s = tok @ replace_from ic r tok p' s'"
      by (simp add: replace_from.simps [of ic r tok p s])
    ultimately show ?thesis by (simp add: m)
  qed
qed

lemma replace_leftmost:
  "leftmost ic r p a m b \<Longrightarrow>
   replace_from ic r tok p (a @ m @ b) = a @ tok @ replace_from ic r tok (last_opt p (a @ m)) b"
proof (induction a arbitrary: p)
  case Nil
  then obtain rest where "ends ic r (p, m @ b) = (last_opt p m, b) # rest" and "m \<noteq> []"
    by (auto simp add: leftmost_def split: list.splits)
  then show ?case
    by (simp add: replace_from.simps [of ic r tok p "m @ b"])
next
  case (Cons c a)
  then have e: "ends ic r (p, c # a @ m @ b) = []" and l: "leftmost ic r (Some c) a m b"
    by (simp_all add: leftmost_def cong: list.case_cong)
  from e Cons.IH [OF l] show ?case
    by (simp add: replace_from.simps [of ic r tok p "c # a @ m @ b"])
qed

lemma redacts_replace:
  "spec_redacts ic r tok p s out \<Longrightarrow> out = replace_from ic r tok p s"
proof (induction rule: spec_redacts.induct)
  case (no_more p s)
  then show ?case by (simp add: replace_no_match)
next
  case (match p a m b out)
  then show ?case by (simp add: replace_leftmost)
qed

lemma redacts_iff:
  "needs P ic r \<Longrightarrow> spec_redacts ic r tok p s out \<longleftrightarrow> out = replace_from ic r tok p s"
  by (auto intro: replace_redacts dest: redacts_replace)

section \<open>Placeholder tokens\<close>

lemma no_match_in_token:
  assumes f: "fenced ic r tok" and u: "tok = t @ u" "u \<noteq> []"
  shows "ends ic r (p, u @ b) = []"
proof (rule ccontr)
  assume "ends ic r (p, u @ b) \<noteq> []"
  then obtain e where e: "e \<in> set (ends ic r (p, u @ b))"
    by (cases "ends ic r (p, u @ b)") auto
  from ends_matched [OF e] obtain m where "matched ic r (p, u @ b) e m" ..
  then have eq: "u @ b = m @ snd e" and acc: "\<forall>c \<in> set m. accepts ic r c"
    by (simp_all add: matched_def)
  from f have nd: "needs pii_char ic r" by (simp add: fenced_def)
  from ends_needs [OF e nd, of m] eq obtain c where c: "c \<in> set m" "pii_char c" by auto
  from eq consider w where "u = m @ w" | w where "m = u @ w"
    by (auto simp add: append_eq_append_conv2)
  then show False
  proof cases
    case 1
    with c(1) u have "c \<in> set tok" by simp
    with f c(2) show False by (simp add: fenced_def)
  next
    case 2
    with u(2) have "last u \<in> set m" by simp
    moreover from u have "last u = last tok" by simp
    ultimately have "accepts ic r (last tok)" using acc by simp
    with f show False by (simp add: fenced_def)
  qed
qed

lemma replace_token_suffix:
  assumes f: "fenced ic r tok"
  shows "tok = t @ u \<Longrightarrow>
         replace_from ic r repl p (u @ b) = u @ replace_from ic r repl (last_opt p u) b"
proof (induction u arbitrary: t p)
  case Nil
  then show ?case by simp
next
  case (Cons c u)
  from no_match_in_token [OF f Cons.prems, of p b]
  have "ends ic r (p, c # u @ b) = []" by simp
  then have "replace_from ic r repl p (c # u @ b) = c # replace_from ic r repl (Some c) (u @ b)"
    by (simp add: replace_from.simps [of ic r repl p "c # u @ b"])
  moreover from Cons.prems have "tok = (t @ [c]) @ u" by simp
  from Cons.IH [OF this]
  have "replace_from ic r repl (Some c) (u @ b) = u @ replace_from ic r repl (last_opt (Some c) u) b" .
  ultimately show ?case by simp
qed

lemma replace_keeps_token:
  assumes f: "fenced ic r tok"
  shows "\<exists>a'. replace_from ic r repl p (a @ tok @ b) =
              a' @ tok @ replace_from ic r repl (Some (last tok)) b"
proof (induction a arbitrary: p rule: length_induct)
  case (1 a)
  show ?case
  proof (cases a)
    case Nil
    from f have "last_opt p tok = Some (last tok)"
      by (simp add: fenced_def last_opt_eq)
    with replace_token_suffix [OF f, of "[]" tok repl p b]
    have "replace_from ic r repl p (a @ tok @ b) =
            [] @ tok @ replace_from ic r repl (Some (last tok)) b"
      by (simp add: Nil)
    then show ?thesis by blast
  next
    case (Cons c a1)
    show ?thesis
    proof (cases "ends ic r (p, a @ tok @ b)")
      case Nil
      from 1 Cons obtain a' where
        "replace_from ic r repl (Some c) (a1 @ tok @ b) =
           a' @ tok @ replace_from ic r repl (Some (last tok)) b"
        by (metis length_Cons lessI)
      with Nil Cons have "replace_from ic r repl p (a @ tok @ b) =
          (c # a') @ tok @ replace_from ic r repl (Some (last tok)) b"
        by (simp add: replace_from.simps [of ic r repl p "c # a1 @ tok @ b"])
      then show ?thesis by blast
    next
      case (Cons e rest)
      obtain p' s' where e: "e = (p', s')" by (cases e)
      from f have nd: "needs pii_char ic r" by (simp add: fenced_def)
      from ends_nonempty [OF Cons [unfolded e] nd]
      have lt: "length s' < length (a @ tok @ b)" by simp
      from Cons e have mem: "(p', s') \<in> set (ends ic r (p, a @ tok @ b))" by simp
      from ends_matched [OF mem] obtain m where "matched ic r (p, a @ tok @ b) (p', s') m" ..
      then have eq: "a @ tok @ b = m @ s'" and acc: "\<forall>c \<in> set m. accepts ic r c"
        by (simp_all add: matched_def)
      from lt eq have mne: "m \<noteq> []" by auto
      from Cons e lt
      have step: "replace_from ic r repl p (a @ tok @ b) = repl @ replace_from ic r repl p' s'"
        by (simp add: replace_from.simps [of ic r repl p "a @ tok @ b"])
      from eq have "\<exists>us. a = m @ us \<and> us @ (tok @ b) = s' \<or> a @ us = m \<and> tok @ b = us @ s'"
        by (simp only: append_eq_append_conv2)
      then obtain us where
        us: "a = m @ us \<and> us @ tok @ b = s' \<or> a @ us = m \<and> tok @ b = us @ s'" ..
      have "(\<exists>w. a = m @ w \<and> s' = w @ tok @ b) \<or> (\<exists>w. m = a @ w \<and> w \<noteq> [] \<and> tok @ b = w @ s')"
      proof (cases "us = []")
        case True
        with us show ?thesis by auto
      next
        case False
        with us show ?thesis by auto
      qed
      then consider w where "a = m @ w" "s' = w @ tok @ b"
        | w where "m = a @ w" "w \<noteq> []" "tok @ b = w @ s'"
        by blast
      then show ?thesis
      proof cases
        case 1
        with mne have "length w < length a" by simp
        with "1.IH" obtain a' where
          "replace_from ic r repl p' (w @ tok @ b) =
             a' @ tok @ replace_from ic r repl (Some (last tok)) b" by blast
        with step 1 have "replace_from ic r repl p (a @ tok @ b) =
            (repl @ a') @ tok @ replace_from ic r repl (Some (last tok)) b"
          by simp
        then show ?thesis by blast
      next
        case 2
        from f have "tok \<noteq> []" by (simp add: fenced_def)
        with 2 have "hd w = hd tok" by (cases tok; cases w) auto
        with 2 have "hd tok \<in> set m" by (cases w) auto
        with acc have "accepts ic r (hd tok)" by simp
        with f show ?thesis by (simp add: fenced_def)
      qed
    qed
  qed
qed

lemma placeholder_facts:
  "tok \<in> set placeholders \<Longrightarrow>
   tok \<noteq> [] \<and> hd tok = 0x7B \<and> last tok = 0x7D \<and> (\<forall>c \<in> set tok. \<not> pii_char c)"
  by (auto simp add: placeholders_def js_def pii_char_def is_digit_def cc_def)

lemma EMAIL_fenced: "tok \<in> set placeholders \<Longrightarrow> fenced False EMAIL tok"
  using placeholder_facts [of tok]
  by (simp add: fenced_def EMAIL_def many1_def in_class_def cc_def pii_char_def)

lemma PHONE_fenced: "tok \<in> set placeholders \<Longrightarrow> fenced False PHONE tok"
  using placeholder_facts [of tok]
  by (simp add: fenced_def PHONE_def opt_def exactly_def sep_def in_class_def cc_def pii_char_def is_digit_def)

lemma SSN_fenced: "tok \<in> set placeholders \<Longrightarrow> fenced False SSN tok"
  using placeholder_facts [of tok]
  by (simp add: fenced_def SSN_def exactly_def digit_def in_class_def cc_def pii_char_def is_digit_def)

lemma CREDIT_CARD_fenced: "tok \<in> set placeholders \<Longrightarrow> fenced False CREDIT_CARD tok"
  using placeholder_facts [of tok]
  by (simp add: fenced_def CREDIT_CARD_def digit_def in_class_def cc_def pii_char_def is_digit_def)

lemma is_digit_to_upper: "is_digit (to_upper c) = is_digit c"
  unfolding to_upper_def is_lower_def is_digit_def by (auto; unat_arith)

lemma is_digit_to_lower: "is_digit (to_lower c) = is_digit c"
  unfolding to_lower_def is_upper_def is_digit_def by (auto; unat_arith)

lemma needs_digit_ic: "needs pii_char ic (Cls [CDigit])"
  by (simp add: in_class_def pii_char_def is_digit_to_upper is_digit_to_lower)

lemma ADDRESS_needs: "needs pii_char True ADDRESS"
  using needs_digit_ic [of True] by (simp add: ADDRESS_def many1_def digit_def)

lemma ADDRESS_open: "\<not> accepts True ADDRESS 0x7B"
  by (simp add: ADDRESS_def many1_def opt_def digit_def lit_def in_class_def cc_def
      to_upper_def to_lower_def is_lower_def is_upper_def is_digit_def is_space_def)

lemma ADDRESS_close: "\<not> accepts True ADDRESS 0x7D"
  by (simp add: ADDRESS_def many1_def opt_def digit_def lit_def in_class_def cc_def
      to_upper_def to_lower_def is_lower_def is_upper_def is_digit_def is_space_def)

lemma ADDRESS_fenced: "tok \<in> set placeholders \<Longrightarrow> fenced True ADDRESS tok"
  using placeholder_facts [of tok] ADDRESS_needs ADDRESS_open ADDRESS_close
  by (simp add: fenced_def)

lemma redactPII_passes:
  "text \<noteq> [] \<Longrightarrow>
   redactPII text =
     replace_from True ADDRESS (js ''{REDACTED_ADDRESS}'') None
      (replace_from False CREDIT_CARD (js ''{REDACTED_CC}'') None
        (replace_from False SSN (js ''{REDACTED_SSN}'') None
          (replace_from False PHONE (js ''{REDACTED_PHONE}'') None
            (replace_from False EMAIL (js ''{REDACTED_EMAIL}'') None text))))"
  by (simp add: redactPII_def replace_all_def)

lemma redactPII_keeps_token:
  assumes tok: "tok \<in> set placeholders"
  shows "\<exists>a'. redactPII (a @ tok @ b) = a' @ tok @ redact_after (cc CHR ''}'') b"
proof -
  from placeholder_facts [OF tok] have ne: "a @ tok @ b \<noteq> []" and l: "last tok = cc CHR ''}''"
    by (simp_all add: cc_def)
  from replace_keeps_token [OF EMAIL_fenced [OF tok]] obtain a1 where
    "replace_from False EMAIL (js ''{REDACTED_EMAIL}'') None (a @ tok @ b) =
       a1 @ tok @ replace_from False EMAIL (js ''{REDACTED_EMAIL}'') (Some (last tok)) b"
    by blast
  moreover from replace_keeps_token [OF PHONE_fenced [OF tok]] obtain a2 where
    "replace_from False PHONE (js ''{REDACTED_PHONE}'') None
       (a1 @ tok @ replace_from False EMAIL (js ''{REDACTED_EMAIL}'') (Some (last tok)) b) =
     a2 @ tok @ replace_from False PHONE (js ''{REDACTED_PHONE}'') (Some (last tok))
       (replace_from False EMAIL (js ''{REDACTED_EMAIL}'') (Some (last tok)) b)"
    by blast
  moreover from replace_keeps_token [OF SSN_fenced [OF tok]] obtain a3 where
    "replace_from False SSN (js ''{REDACTED_SSN}'') None
       (a2 @ tok @ replace_from False PHONE (js ''{REDACTED_PHONE}'') (Some (last tok))
         (replace_from False EMAIL (js ''{REDACTED_EMAIL}'') (Some (last tok)) b)) =
     a3 @ tok @ replace_from False SSN (js ''{REDACTED_SSN}'') (Some (last tok))
       (replace_from False PHONE (js ''{REDACTED_PHONE}'') (Some (last tok))
         (replace_from False EMAIL (js ''{REDACTED_EMAIL}'') (Some (last tok)) b))"
    by blast
  moreover from replace_keeps_token [OF CREDIT_CARD_fenced [OF tok]] obtain a4 where
    "replace_from False CREDIT_CARD (js ''{REDACTED_CC}'') None
       (a3 @ tok @ replace_from False SSN (js ''{REDACTED_SSN}'') (Some (last tok))
         (replace_from False PHONE (js ''{REDACTED_PHONE}'') (Some (last tok))
           (replace_from False EMAIL (js ''{REDACTED_EMAIL}'') (Some (last tok)) b))) =
     a4 @ tok @ replace_from False CREDIT_CARD (js ''{REDACTED_CC}'') (Some (last tok))
       (replace_from False SSN (js ''{REDACTED_SSN}'') (Some (last tok))
         (replace_from False PHONE (js ''{REDACTED_PHONE}'') (Some (last tok))
           (replace_from False EMAIL (js ''{REDACTED_EMAIL}'') (Some (last tok)) b)))"
    by blast
  moreover from replace_keeps_token [OF ADDRESS_fenced [OF tok]] obtain a5 where
    "replace_from True ADDRESS (js ''{REDACTED_ADDRESS}'') None
       (a4 @ tok @ replace_from False CREDIT_CARD (js ''{REDACTED_CC}'') (Some (last tok))
         (replace_from False SSN (js ''{REDACTED_SSN}'') (Some (last tok))
           (replace_from False PHONE (js ''{REDACTED_PHONE}'') (Some (last tok))
             (replace_from False EMAIL (js ''{REDACTED_EMAIL}'') (Some (last tok)) b)))) =
     a5 @ tok @ replace_from True ADDRESS (js ''{REDACTED_ADDRESS}'') (Some (last tok))
       (replace_from False CREDIT_CARD (js ''{REDACTED_CC}'') (Some (last tok))
         (replace_from False SSN (js ''{REDACTED_SSN}'') (Some (last tok))
           (replace_from False PHONE (js ''{REDACTED_PHONE}'') (Some (last tok))
             (replace_from False EMAIL (js ''{REDACTED_EMAIL}'') (Some (last tok)) b))))"
    by blast
  ultimately have "redactPII (a @ tok @ b) = a5 @ tok @ redact_after (cc CHR ''}'') b"
    by (simp only: redactPII_passes [OF ne] redact_after_def l)
  then show ?thesis by blast
qed

lemma redactPII_no_pii: "no_pii s \<Longrightarrow> redactPII s = s"
  by (cases "s = []") (simp_all add: redactPII_def replace_all_def no_pii_def replace_no_match)

lemma replace_from_Nil:
  assumes "needs P ic r"
  shows "replace_from ic r tok p [] = []"
proof (cases "ends ic r (p, [])")
  case Nil
  then show ?thesis by (simp add: replace_from.simps [of ic r tok p "[]"])
next
  case (Cons e rest)
  obtain p' s' where "e = (p', s')" by (cases e)
  with Cons ends_nonempty [OF _ assms, of p "[]" p' s' rest] show ?thesis by simp
qed

lemma EMAIL_needs: "needs pii_char False EMAIL"
  by (simp add: EMAIL_def many1_def pii_char_def)

lemma PHONE_needs: "needs pii_char False PHONE"
  by (simp add: PHONE_def opt_def exactly_def in_class_def cc_def pii_char_def is_digit_def)

lemma SSN_needs: "needs pii_char False SSN"
  using needs_digit_ic [of False] by (simp add: SSN_def exactly_def digit_def)

lemma CREDIT_CARD_needs: "needs pii_char False CREDIT_CARD"
  using needs_digit_ic [of False] by (simp add: CREDIT_CARD_def digit_def)

subsection \<open>Evaluations\<close>

lemma redact_contact:
  "redactPII (js ''Contact me at jane@example.com or 555-123-4567'') =
     js ''Contact me at {REDACTED_EMAIL} or {REDACTED_PHONE}''"
  by code_simp

lemma redact_ssn: "redactPII (js ''SSN: 123-45-6789'') = js ''SSN: {REDACTED_SSN}''"
  by code_simp

lemma redact_card_spaced: "redactPII (js ''4111 1111 1111 1111'') = js ''{REDACTED_CC}''"
  by code_simp

lemma redact_card_plain: "redactPII (js ''4111111111111111'') = js ''{REDACTED_PHONE}111111''"
  by code_simp

lemma card_spaced_leftmost: "leftmost False CREDIT_CARD None [] (js ''4111 1111 1111 1111'') []"
  by code_simp

lemma card_plain_leftmost: "leftmost False CREDIT_CARD None [] (js ''4111111111111111'') []"
  by code_simp

lemma no_pii_hello: "no_pii (js ''hello world'')"
  by code_simp

section \<open>Sessions and the wrapper\<close>

lemma length_toString16_pad: "length (padStart 2 c (toString16 b)) = 2"
  by (simp add: padStart_def toString16_def)

lemma length_concat_const:
  "(\<And>x. x \<in> set xs \<Longrightarrow> length (f x) = k) \<Longrightarrow> length (concat (map f xs)) = k * length xs"
  by (induction xs) auto

lemma initSession_id_length:
  "length (fst (initSession array now st)) = 32"
  unfolding initSession_def Let_def fst_conv
  by (subst length_concat_const [where k = 2]) (simp_all add: length_toString16_pad)

lemma secureExecute_state: "fst (snd (secureExecute input taskName task st)) = st"
  by (simp add: secureExecute_def Let_def split: prod.splits promise.splits)

lemma initSession_state:
  "fst (snd (initSession array now st)) =
     \<lparr>id' = Some (fst (initSession array now st)), isActive = True, startTime = now\<rparr>"
  by (simp add: initSession_def Let_def)

lemma step_ok: "session_ok st \<Longrightarrow> session_ok (step c st)"
proof (cases c)
  case (InitSession array now)
  have "fst (initSession array now st) \<noteq> []"
    using initSession_id_length [of array now st] by auto
  then show ?thesis
    by (simp add: InitSession initSession_state session_ok_def)
next
  case GetSessionId
  assume "session_ok st"
  then show ?thesis by (simp add: GetSessionId)
next
  case (SecureExecute input taskName task)
  assume "session_ok st"
  then show ?thesis by (simp add: SecureExecute secureExecute_state)
next
  case ClearSession
  then show ?thesis by (simp add: clearSession_def session_ok_def)
qed

lemma run_ok: "session_ok st \<Longrightarrow> session_ok (run ops st)"
  by (induction ops arbitrary: st) (auto intro: step_ok)

lemma currentSession_ok: "session_ok currentSession"
  by (simp add: session_ok_def currentSession_def)

lemma run_current_ok: "session_ok (run ops currentSession)"
  by (rule run_ok [OF currentSession_ok])

lemma secureExecute_guarded:
  "\<not> isActive st \<or> \<not> truthy (id' st) \<Longrightarrow>
   secureExecute input taskName task st =
     (Rejected (Error (js ''Security Error: No active session.'')), st, [])"
  by (auto simp add: secureExecute_def)

lemma secureExecute_too_large:
  "isActive st \<Longrightarrow> truthy (id' st) \<Longrightarrow> length input > MAX_INPUT_CHARS \<Longrightarrow>
   secureExecute input taskName task st =
     (Rejected (Error (js ''Security Error: Input validation failed (too large or unsafe).'')), st,
      [Call_validateInput input,
       Console (ConsoleWarn (js ''[SECURE_LOG] Input exceeds max length of '' @ dec MAX_INPUT_CHARS @ js ''.''))])"
  by (simp add: secureExecute_def validateInput_def)

lemma secureExecute_runs:
  "isActive st \<Longrightarrow> truthy (id' st) \<Longrightarrow> length input \<le> MAX_INPUT_CHARS \<Longrightarrow>
   fst (secureExecute input taskName task st) = task (redactPII input) \<and>
   task_calls (snd (snd (secureExecute input taskName task st))) = [redactPII input] \<and>
   redact_calls (snd (snd (secureExecute input taskName task st))) = [input]"
  by (simp add: secureExecute_def validateInput_def Let_def split: promise.splits)


section \<open>Claims\<close>

lemma live_session_active: "isActive live_session"
  by (simp add: live_session_def initSession_state)

lemma active_truthy: "isActive (run ops currentSession) \<Longrightarrow> truthy (id' (run ops currentSession))"
  using run_current_ok [of ops] by (simp add: session_ok_def)

text \<open>
  Claim C1. Under an active session, an input of at most 100,000 code units makes
  \<open>secureExecute\<close> settle exactly as \<open>task (redactPII input)\<close> does, and the task is
  called once, with \<open>redactPII input\<close>.
\<close>

theorem secureExecute_runs_task:
  assumes "st = run ops currentSession" and "isActive st" and "length input \<le> 100000"
  shows "fst (secureExecute input taskLabel task st) = task (redactPII input) \<and>
         task_calls (snd (snd (secureExecute input taskLabel task st))) = [redactPII input]"
proof -
  from assms(1,2) have "truthy (id' st)" by (simp add: active_truthy)
  with assms(2,3) secureExecute_runs [of st input taskLabel task] show ?thesis
    by (simp add: MAX_INPUT_CHARS_def)
qed

theorem secureExecute_runs_task_witness:
  "fst (secureExecute (js ''SSN: 123-45-6789'') (js ''demo'') echo live_session) =
     Resolved (js ''SSN: {REDACTED_SSN}'') \<and>
   task_calls (snd (snd (secureExecute (js ''SSN: 123-45-6789'') (js ''demo'') echo live_session))) =
     [js ''SSN: {REDACTED_SSN}'']"
proof -
  have "length (js ''SSN: 123-45-6789'') \<le> 100000" by (simp add: js_def)
  from secureExecute_runs_task [OF live_session_def live_session_active this, of "js ''demo''" echo]
  show ?thesis by (simp add: redact_ssn echo_def)
qed

text \<open>
  Claim C2. With no active session \<open>secureExecute\<close> fails with the error "Security Error:
  No active session.", and the call invokes neither \<open>redactPII\<close> nor the task.
\<close>

theorem secureExecute_no_session:
  assumes "\<not> isActive st"
  shows "secureExecute input taskLabel task st =
           (Rejected (Error (js ''Security Error: No active session.'')), st, []) \<and>
         task_calls (snd (snd (secureExecute input taskLabel task st))) = [] \<and>
         redact_calls (snd (snd (secureExecute input taskLabel task st))) = []"
  using assms by (simp add: secureExecute_guarded)

theorem secureExecute_no_session_witness:
  "secureExecute (js ''SSN: 123-45-6789'') (js ''demo'') echo currentSession =
     (Rejected (Error (js ''Security Error: No active session.'')), currentSession, []) \<and>
   task_calls (snd (snd (secureExecute (js ''SSN: 123-45-6789'') (js ''demo'') echo currentSession))) = [] \<and>
   redact_calls (snd (snd (secureExecute (js ''SSN: 123-45-6789'') (js ''demo'') echo currentSession))) = []"
proof -
  have "\<not> isActive currentSession" by (simp add: currentSession_def)
  from secureExecute_no_session [OF this] show ?thesis .
qed

text \<open>
  Claim C3. Under an active session, an input longer than 100,000 code units makes
  \<open>secureExecute\<close> fail with the error "Security Error: Input validation failed (too large
  or unsafe).", and the task is never called.
\<close>

theorem secureExecute_rejects_large:
  assumes "st = run ops currentSession" and "isActive st" and "100000 < length input"
  shows "fst (secureExecute input taskLabel task st) =
           Rejected (Error (js ''Security Error: Input validation failed (too large or unsafe).'')) \<and>
         task_calls (snd (snd (secureExecute input taskLabel task st))) = []"
proof -
  from assms(1,2) have "truthy (id' st)" by (simp add: active_truthy)
  with assms(2,3) show ?thesis
    by (simp add: secureExecute_too_large MAX_INPUT_CHARS_def)
qed

theorem secureExecute_rejects_large_witness:
  "fst (secureExecute (replicate 150000 (cc CHR ''x'')) (js ''demo'') echo live_session) =
     Rejected (Error (js ''Security Error: Input validation failed (too large or unsafe).'')) \<and>
   task_calls (snd (snd (secureExecute (replicate 150000 (cc CHR ''x'')) (js ''demo'') echo live_session))) = []"
proof -
  have "100000 < length (replicate 150000 (cc CHR ''x''))" by simp
  from secureExecute_rejects_large [OF live_session_def live_session_active this]
  show ?thesis .
qed

text \<open>
  Claim C4 as stated (every substring matching a category's rule is replaced by
  \<open>{REDACTED_<CATEGORY>}\<close>, a credit-card match by \<open>{REDACTED_CREDIT_CARD}\<close>) fails on
  two inputs that the CREDIT_CARD rule matches from end to end: a spaced card number
  becomes \<open>{REDACTED_CC}\<close>, and of an unspaced one the PHONE pass, which runs earlier,
  takes the first ten digits.
\<close>

theorem credit_card_token_counterexample:
  "leftmost False CREDIT_CARD None [] (js ''4111 1111 1111 1111'') [] \<and>
   redactPII (js ''4111 1111 1111 1111'') = js ''{REDACTED_CC}'' \<and>
   redactPII (js ''4111 1111 1111 1111'') \<noteq> js ''{REDACTED_CREDIT_CARD}'' \<and>
   leftmost False CREDIT_CARD None [] (js ''4111111111111111'') [] \<and>
   redactPII (js ''4111111111111111'') = js ''{REDACTED_PHONE}111111''"
  by (simp add: redact_card_spaced redact_card_plain card_spaced_leftmost card_plain_leftmost)
     (simp add: js_def)

text \<open>
  Claim C4, as amended. \<open>redactPII\<close> runs one pass per category, in the order EMAIL,
  PHONE, SSN, CREDIT_CARD, ADDRESS, each over the output of the pass before it; a pass
  replaces the leftmost match of its rule, and then each next match found from the end of
  the previous one, by its token; the tokens are \<open>{REDACTED_EMAIL}\<close>, \<open>{REDACTED_PHONE}\<close>,
  \<open>{REDACTED_SSN}\<close>, \<open>{REDACTED_CC}\<close> and \<open>{REDACTED_ADDRESS}\<close>. The output of
  \<open>redactPII\<close> is the one text that the five passes, so described, lead to.
\<close>

theorem redactPII_redacts:
  "(\<exists>w1 w2 w3 w4.
      spec_redacts False EMAIL (js ''{REDACTED_EMAIL}'') None text w1 \<and>
      spec_redacts False PHONE (js ''{REDACTED_PHONE}'') None w1 w2 \<and>
      spec_redacts False SSN (js ''{REDACTED_SSN}'') None w2 w3 \<and>
      spec_redacts False CREDIT_CARD (js ''{REDACTED_CC}'') None w3 w4 \<and>
      spec_redacts True ADDRESS (js ''{REDACTED_ADDRESS}'') None w4 out)
   \<longleftrightarrow> out = redactPII text"
proof -
  have "redactPII text =
     replace_from True ADDRESS (js ''{REDACTED_ADDRESS}'') None
      (replace_from False CREDIT_CARD (js ''{REDACTED_CC}'') None
        (replace_from False SSN (js ''{REDACTED_SSN}'') None
          (replace_from False PHONE (js ''{REDACTED_PHONE}'') None
            (replace_from False EMAIL (js ''{REDACTED_EMAIL}'') None text))))"
  proof (cases "text = []")
    case True
    then show ?thesis
      by (simp add: redactPII_def replace_from_Nil [OF EMAIL_needs]
          replace_from_Nil [OF PHONE_needs] replace_from_Nil [OF SSN_needs]
          replace_from_Nil [OF CREDIT_CARD_needs] replace_from_Nil [OF ADDRESS_needs])
  next
    case False
    then show ?thesis by (rule redactPII_passes)
  qed
  then show ?thesis
    by (simp add: redacts_iff [OF EMAIL_needs] redacts_iff [OF PHONE_needs]
        redacts_iff [OF SSN_needs] redacts_iff [OF CREDIT_CARD_needs]
        redacts_iff [OF ADDRESS_needs])
qed

theorem redactPII_redacts_witness:
  "\<exists>w1 w2 w3 w4.
     spec_redacts False EMAIL (js ''{REDACTED_EMAIL}'') None (js ''4111 1111 1111 1111'') w1 \<and>
     spec_redacts False PHONE (js ''{REDACTED_PHONE}'') None w1 w2 \<and>
     spec_redacts False SSN (js ''{REDACTED_SSN}'') None w2 w3 \<and>
     spec_redacts False CREDIT_CARD (js ''{REDACTED_CC}'') None w3 w4 \<and>
     spec_redacts True ADDRESS (js ''{REDACTED_ADDRESS}'') None w4 (js ''{REDACTED_CC}'')"
  using redactPII_redacts [of "js ''4111 1111 1111 1111''" "js ''{REDACTED_CC}''"]
  by (simp only: redact_card_spaced)

text \<open>
  Claim C5. \<open>redactPII\<close> maps "Contact me at jane@example.com or 555-123-4567" to
  "Contact me at {REDACTED_EMAIL} or {REDACTED_PHONE}", and "SSN: 123-45-6789" to
  "SSN: {REDACTED_SSN}".
\<close>

theorem redactPII_scenarios:
  "redactPII (js ''Contact me at jane@example.com or 555-123-4567'') =
     js ''Contact me at {REDACTED_EMAIL} or {REDACTED_PHONE}'' \<and>
   redactPII (js ''SSN: 123-45-6789'') = js ''SSN: {REDACTED_SSN}''"
  by (simp only: redact_contact redact_ssn)

text \<open>
  Claim C6. \<open>validateInput\<close> answers false exactly when the text is longer than 100,000
  code units: a text of 100,000 passes and one of 100,001 fails. It has no failing branch:
  every text gets a boolean.
\<close>

theorem validateInput_limit:
  "(fst (validateInput text) = False) = (100000 < length text) \<and>
   fst (validateInput (replicate 100000 c)) = True \<and>
   fst (validateInput (replicate 100001 c)) = False"
  by (simp add: validateInput_def MAX_INPUT_CHARS_def)

text \<open>
  Claim C7. Under an active session and with a valid input, when the task fails
  \<open>secureExecute\<close> fails with the very value the task raised.
\<close>

theorem secureExecute_propagates:
  assumes "st = run ops currentSession" and "isActive st" and "length input \<le> 100000"
    and "task (redactPII input) = Rejected e"
  shows "fst (secureExecute input taskLabel task st) = Rejected e"
proof -
  from assms(1,2) have "truthy (id' st)" by (simp add: active_truthy)
  with assms(2,3) secureExecute_runs [of st input taskLabel task] assms(4) show ?thesis
    by (simp add: MAX_INPUT_CHARS_def)
qed

theorem secureExecute_propagates_witness:
  "fst (secureExecute (js ''SSN: 123-45-6789'') (js ''demo'') failing live_session) =
     Rejected (Error (js ''quota''))"
proof -
  have "length (js ''SSN: 123-45-6789'') \<le> 100000" by (simp add: js_def)
  moreover have "failing (redactPII (js ''SSN: 123-45-6789'')) = Rejected (Error (js ''quota''))"
    by (simp add: failing_def)
  ultimately show ?thesis
    by (rule secureExecute_propagates [OF live_session_def live_session_active])
qed

text \<open>
  Claim C8. A text in which no detection rule finds a match is returned as it is; the
  empty text gives the empty text; and wherever a placeholder token stands in an output of
  \<open>redactPII\<close>, it still stands after \<open>redactPII\<close> is applied again, in front of the
  redaction of the text that followed it.
\<close>

theorem redactPII_fixpoints:
  "(no_pii s \<longrightarrow> redactPII s = s) \<and> redactPII [] = [] \<and>
   (tok \<in> set placeholders \<longrightarrow> redactPII t = a @ tok @ b \<longrightarrow>
      (\<exists>a'. redactPII (redactPII t) = a' @ tok @ redact_after (cc CHR ''}'') b))"
proof (intro conjI impI)
  assume "no_pii s"
  then show "redactPII s = s" by (rule redactPII_no_pii)
next
  show "redactPII [] = []" by (simp add: redactPII_def)
next
  assume "tok \<in> set placeholders" and "redactPII t = a @ tok @ b"
  then show "\<exists>a'. redactPII (redactPII t) = a' @ tok @ redact_after (cc CHR ''}'') b"
    by (simp add: redactPII_keeps_token)
qed

theorem redactPII_fixpoints_witness:
  "redactPII (js ''hello world'') = js ''hello world'' \<and>
   (\<exists>a'. redactPII (redactPII (js ''SSN: 123-45-6789'')) =
      a' @ js ''{REDACTED_SSN}'' @ redact_after (cc CHR ''}'') [])"
proof -
  have tok: "js ''{REDACTED_SSN}'' \<in> set placeholders" by (simp add: placeholders_def)
  have split: "redactPII (js ''SSN: 123-45-6789'') = js ''SSN: '' @ js ''{REDACTED_SSN}'' @ []"
    by (simp add: redact_ssn) (simp add: js_def)
  from redactPII_fixpoints [where s = "js ''hello world''" and tok = "js ''{REDACTED_SSN}''"
      and t = "js ''SSN: 123-45-6789''" and a = "js ''SSN: ''" and b = "[]"]
    no_pii_hello tok split
  show ?thesis by blast
qed

text \<open>
  Claim C9. In every state that calls to the four operations can reach from the initial
  one, the identifier is present exactly when \<open>isActive\<close> holds. The initial state is
  inactive without identifier; \<open>initSession\<close> installs the identifier it returns and sets
  \<open>isActive\<close>; \<open>clearSession\<close> removes the identifier and resets \<open>isActive\<close>;
  \<open>getSessionId\<close> and \<open>secureExecute\<close> leave the record as it is.
\<close>

theorem session_invariant:
  "(id' (run ops currentSession) \<noteq> None) = isActive (run ops currentSession) \<and>
   id' currentSession = None \<and> isActive currentSession = False \<and>
   id' (fst (snd (initSession array now st))) = Some (fst (initSession array now st)) \<and>
   isActive (fst (snd (initSession array now st))) = True \<and>
   id' (fst (clearSession st)) = None \<and> isActive (fst (clearSession st)) = False \<and>
   step GetSessionId st = st \<and>
   fst (snd (secureExecute input taskLabel task st)) = st"
  using run_current_ok [of ops]
  by (simp add: session_ok_def currentSession_def initSession_state clearSession_def
      secureExecute_state)

theorem session_invariant_witness:
  "id' live_session \<noteq> None \<and> isActive live_session \<and>
   id' (fst (clearSession live_session)) = None \<and>
   isActive (fst (clearSession live_session)) = False \<and>
   fst (snd (secureExecute (js ''SSN: 123-45-6789'') (js ''demo'') echo live_session)) = live_session"
  using session_invariant [where ops = "[InitSession (\<lambda>i. 0) 0] :: (unit, unit) call list"
      and st = live_session and input = "js ''SSN: 123-45-6789''" and taskLabel = "js ''demo''"
      and task = echo] live_session_active
  by (simp add: live_session_def)

text \<open>
  Claim C10. \<open>clearSession\<close> resets \<open>isActive\<close> and removes the identifier, so that
  \<open>getSessionId\<close> then returns nothing; a second \<open>clearSession\<close> leaves the same record
  (the operation has no failing branch).
\<close>

theorem clearSession_idempotent:
  "isActive (fst (clearSession st)) = False \<and> id' (fst (clearSession st)) = None \<and>
   getSessionId (fst (clearSession st)) = None \<and>
   fst (clearSession (fst (clearSession st))) = fst (clearSession st)"
  by (simp add: clearSession_def getSessionId_def)

end
